theory Spec2Isabelle
  imports Main "HOL-Library.Word"
begin

unbundle bit_operations_syntax

section \<open>Machine types and protocol constants\<close>

type_synonym u8 = "8 word"
type_synonym u16 = "16 word"
type_synonym u32 = "32 word"
type_synonym fd = int

text \<open>The constants of the Stage 2 programs (main.cpp and its variants) and of
  main_stage1.cpp. The three programs name the same values differently.\<close>

definition HEADER_LEN :: nat where "HEADER_LEN = 8"
definition MAX_BODY :: int where "MAX_BODY = 65535"
definition MAGIC :: u8 where "MAGIC = 0xCC"

definition HEADER_LENGTH :: nat where "HEADER_LENGTH = 8"
definition MAX_PAYLOAD :: int where "MAX_PAYLOAD = 65535"
definition MAGIC_BYTE :: u8 where "MAGIC_BYTE = 0xCC"

definition CTMP_MAGIC :: u8 where "CTMP_MAGIC = 0xCC"

section \<open>Sockets\<close>

text \<open>
  A connected stream socket as the reader sees it: \<open>pending\<close> holds the bytes the peer
  delivers before the stream ends, \<open>recvs\<close> logs the byte count every \<open>recv\<close> call asked
  for, and \<open>is_open\<close> becomes False when the descriptor is passed to \<open>close\<close>.
  A peer that stalls for ever without closing is not modelled: a \<open>recv\<close> that would
  block for ever has no result to speak of.
\<close>

record sock =
  pending :: "u8 list"
  recvs :: "nat list"
  is_open :: bool

text \<open>
  \<open>recv(sock, buf, n, MSG_WAITALL)\<close>: blocks until \<open>n\<close> bytes arrived or the stream
  ended; the bytes obtained are returned, and their number is the call's return value.
  An I/O error returns -1, which every caller treats as it treats a short count.
\<close>

definition recv_waitall :: "sock \<Rightarrow> nat \<Rightarrow> u8 list \<times> sock" where
  "recv_waitall s n =
     (take n (pending s), s\<lparr>pending := drop n (pending s), recvs := recvs s @ [n]\<rparr>)"

definition close_sock :: "sock \<Rightarrow> sock" where
  "close_sock s = s\<lparr>is_open := False\<rparr>"

text \<open>\<open>ntohs(*reinterpret_cast<uint16_t *>(buf + i))\<close>: the big-endian 16-bit value at
  offsets \<open>i\<close> and \<open>i + 1\<close>.\<close>

definition ntohs_at :: "u8 list \<Rightarrow> nat \<Rightarrow> u16" where
  "ntohs_at buf i = push_bit 8 (ucast (buf ! i)) OR ucast (buf ! (i + 1))"

text \<open>\<open>std::vector::resize\<close>: truncates, or appends zero bytes.\<close>

definition resize :: "u8 list \<Rightarrow> nat \<Rightarrow> u8 list" where
  "resize v n = take n v @ replicate (n - length v) 0"

text \<open>Storing \<open>src\<close> into a buffer from offset \<open>off\<close> on (\<open>memcpy\<close>, and \<open>recv\<close> into
  \<open>out.data() + off\<close>); the callers have made the buffer large enough.\<close>

definition write_at :: "u8 list \<Rightarrow> nat \<Rightarrow> u8 list \<Rightarrow> u8 list" where
  "write_at buf off src = take off buf @ src @ drop (off + length src) buf"

section \<open>Checksum\<close>

text \<open>\<open>(uint16_t(b[i]) << 8) | b[i + 1]\<close>, added to the 32-bit accumulator.\<close>

definition be_word :: "u8 \<Rightarrow> u8 \<Rightarrow> u32" where
  "be_word hi lo = push_bit 8 (ucast hi) OR ucast lo"

text \<open>\<open>if (sum > 0xFFFF) sum = (sum & 0xFFFF) + 1;\<close>\<close>

definition fold_carry :: "u32 \<Rightarrow> u32" where
  "fold_carry s = (if s > 0xFFFF then (s AND 0xFFFF) + 1 else s)"

text \<open>
  The summing loop shared by \<open>calculateChecksum\<close>, \<open>compute_checksum\<close> and
  \<open>validateChecksum\<close>: the \<open>for\<close> loop takes the bytes two at a time while two are
  left, and the \<open>if (n & 1)\<close> after it adds a last single byte as the high byte of a word.
\<close>

fun sum_words :: "u8 list \<Rightarrow> u32 \<Rightarrow> u32" where
  "sum_words (hi # lo # rest) s = sum_words rest (fold_carry (s + be_word hi lo))"
| "sum_words [b] s = fold_carry (s + push_bit 8 (ucast b))"
| "sum_words [] s = s"

text \<open>\<open>return uint16_t(~sum) & 0xFFFF;\<close>\<close>

definition calculateChecksum :: "u8 list \<Rightarrow> u16" where
  "calculateChecksum data = ucast (NOT (sum_words data 0)) AND 0xFFFF"

definition compute_checksum :: "u8 list \<Rightarrow> u16" where
  "compute_checksum b = ucast (NOT (sum_words b 0)) AND 0xFFFF"

text \<open>\<open>validateChecksum\<close> of the third Stage 2 program: \<open>return sum == 0xFFFF;\<close>\<close>

definition validateChecksum :: "u8 list \<Rightarrow> bool" where
  "validateChecksum buf = (sum_words buf 0 = 0xFFFF)"

subsection \<open>The checksum as the specification words it\<close>

text \<open>
  The byte sequence as 16-bit big-endian words, a trailing odd byte padded with a low
  zero byte; a 32-bit running sum; whenever the sum exceeds 0xFFFF, the carry is folded
  back in by \<open>sum = (sum & 0xFFFF) + (sum >> 16)\<close>; the result is the bitwise NOT of
  the sum, masked to 16 bits.
\<close>

fun spec_words :: "u8 list \<Rightarrow> u16 list" where
  "spec_words (hi # lo # rest) = (push_bit 8 (ucast hi) OR ucast lo) # spec_words rest"
| "spec_words [b] = [push_bit 8 (ucast b) OR 0]"
| "spec_words [] = []"

definition spec_fold :: "u32 \<Rightarrow> u32" where
  "spec_fold s = (if s > 0xFFFF then (s AND 0xFFFF) + drop_bit 16 s else s)"

definition spec_checksum :: "u8 list \<Rightarrow> u16" where
  "spec_checksum bytes =
     ucast (NOT (foldl (\<lambda>s w. spec_fold (s + ucast w)) 0 (spec_words bytes)) AND 0xFFFF)"

text \<open>The sender's side of the protocol: the checksum is computed with the field
  (offsets 4 and 5) holding 0xCC 0xCC, and stored there big-endian.\<close>

definition with_checksum :: "u8 list \<Rightarrow> u8 list" where
  "with_checksum buf =
     (let c = compute_checksum (buf[4 := 0xCC, 5 := 0xCC])
      in buf[4 := ucast (drop_bit 8 c), 5 := ucast c])"

text \<open>The words of a buffer added up as natural numbers, without any folding: the
  folded sum of \<open>sum_words\<close> is congruent to it modulo 0xFFFF.\<close>

fun word_total :: "u8 list \<Rightarrow> nat" where
  "word_total (hi # lo # rest) = unat (be_word hi lo) + word_total rest"
| "word_total [b] = unat (be_word b 0)"
| "word_total [] = 0"

section \<open>Reading one message\<close>

text \<open>
  Every reader takes the socket and the caller's vector, and returns its \<open>bool\<close>, the
  vector as it leaves it, and the socket. \<open>read_ctmp\<close> is the reader of main.cpp.
\<close>

definition read_ctmp :: "sock \<Rightarrow> u8 list \<Rightarrow> bool \<times> u8 list \<times> sock" where
  "read_ctmp sock out =
     (let (hdr, s1) = recv_waitall sock HEADER_LEN in
      if int (length hdr) \<noteq> int HEADER_LEN then (False, out, s1)
      else if hdr ! 0 \<noteq> MAGIC then (False, out, s1)
      else
        let options = hdr ! 1;
            len = ntohs_at hdr 2;
            net_ck = ntohs_at hdr 4
        in
        if uint len > MAX_BODY then (False, out, s1)
        else if hdr ! 6 \<noteq> 0 then (False, out, s1)
        else if hdr ! 7 \<noteq> 0 then (False, out, s1)
        else
          let out1 = write_at (resize out (HEADER_LEN + unat len)) 0 hdr;
              (body, s2) = recv_waitall s1 (unat len);
              out2 = write_at out1 HEADER_LEN body
          in
          if int (length body) \<noteq> uint len then (False, out2, s2)
          else if options AND 0x40 \<noteq> 0 then
            (let tmp = out2[4 := 0xCC, 5 := 0xCC];
                 calc = compute_checksum tmp
             in if calc \<noteq> net_ck then (False, out2, s2) else (True, out2, s2))
          else (True, out2, s2))"

text \<open>\<open>readCtmpMessage\<close> of the first Stage 2 program: the same reader under other
  names, with \<open>calculateChecksum\<close>.\<close>

definition readCtmpMessage :: "sock \<Rightarrow> u8 list \<Rightarrow> bool \<times> u8 list \<times> sock" where
  "readCtmpMessage sock out =
     (let (header_buf, s1) = recv_waitall sock HEADER_LENGTH in
      if int (length header_buf) \<noteq> int HEADER_LENGTH then (False, out, s1)
      else if header_buf ! 0 \<noteq> MAGIC_BYTE then (False, out, s1)
      else
        let options = header_buf ! 1;
            payloadLen = ntohs_at header_buf 2;
            checksum = ntohs_at header_buf 4
        in
        if uint payloadLen > MAX_PAYLOAD then (False, out, s1)
        else if header_buf ! 6 \<noteq> 0 then (False, out, s1)
        else if header_buf ! 7 \<noteq> 0 then (False, out, s1)
        else
          let out1 = write_at (resize out (HEADER_LENGTH + unat payloadLen)) 0 header_buf;
              (body, s2) = recv_waitall s1 (unat payloadLen);
              out2 = write_at out1 HEADER_LENGTH body
          in
          if int (length body) \<noteq> uint payloadLen then (False, out2, s2)
          else if options AND 0x40 \<noteq> 0 then
            (let temp = out2[4 := MAGIC_BYTE, 5 := MAGIC_BYTE]
             in if calculateChecksum temp \<noteq> checksum then (False, out2, s2)
                else (True, out2, s2))
          else (True, out2, s2))"

text \<open>\<open>readCtmpMessage\<close> of the third Stage 2 program, which hands the received
  buffer to \<open>validateChecksum\<close> as it is.\<close>

definition readCtmpMessage_sum :: "sock \<Rightarrow> u8 list \<Rightarrow> bool \<times> u8 list \<times> sock" where
  "readCtmpMessage_sum sock out =
     (let (hdr, s1) = recv_waitall sock HEADER_LEN in
      if int (length hdr) \<noteq> int HEADER_LEN then (False, out, s1)
      else if hdr ! 0 \<noteq> MAGIC then (False, out, s1)
      else
        let options = hdr ! 1;
            len = ntohs_at hdr 2
        in
        if uint len > MAX_BODY then (False, out, s1)
        else if hdr ! 6 \<noteq> 0 then (False, out, s1)
        else if hdr ! 7 \<noteq> 0 then (False, out, s1)
        else
          let out1 = write_at (resize out (HEADER_LEN + unat len)) 0 hdr;
              (body, s2) = recv_waitall s1 (unat len);
              out2 = write_at out1 HEADER_LEN body
          in
          if int (length body) \<noteq> uint len then (False, out2, s2)
          else
            let isSensitive = (options AND 0x40 \<noteq> 0)
            in if isSensitive then
                 (if \<not> validateChecksum out2 then (False, out2, s2) else (True, out2, s2))
               else (True, out2, s2))"

text \<open>\<open>get_ctmp_message\<close> of main_stage1.cpp. The \<open>memcmp\<close> compares the four
  bytes from offset 4 with four zero bytes.\<close>

definition get_ctmp_message :: "sock \<Rightarrow> u8 list \<Rightarrow> bool \<times> u8 list \<times> sock" where
  "get_ctmp_message sock msg =
     (let (header, s1) = recv_waitall sock HEADER_LEN;
          n = int (length header)
      in
      if n \<noteq> int HEADER_LEN then (False, msg, s1)
      else if header ! 0 \<noteq> CTMP_MAGIC then (False, msg, s1)
      else if header ! 1 \<noteq> 0x00 then (False, msg, s1)
      else if take 4 (drop 4 header) \<noteq> [0, 0, 0, 0] then (False, msg, s1)
      else
        let len = ntohs_at header 2 in
        if uint len > MAX_BODY then (False, msg, s1)
        else
          let msg1 = write_at (resize msg (HEADER_LEN + unat len)) 0 header;
              (body, s2) = recv_waitall s1 (unat len);
              msg2 = write_at msg1 HEADER_LEN body
          in (int (length body) = uint len, msg2, s2))"

section \<open>Relaying\<close>

text \<open>
  The consumers' side: \<open>sinks\<close> is the vector of registered descriptors, \<open>sends\<close>
  logs every \<open>send\<close> call (descriptor, bytes handed over, count returned) and
  \<open>closed\<close> the descriptors passed to \<open>close\<close>. What a \<open>send\<close> returns is the
  peer's and the kernel's business: a \<open>sender\<close> gives it, and may look at all that
  happened so far.
\<close>

record world =
  sinks :: "fd list"
  sends :: "(fd \<times> u8 list \<times> int) list"
  closed :: "fd list"

type_synonym sender = "world \<Rightarrow> fd \<Rightarrow> u8 list \<Rightarrow> int"

text \<open>
  The \<open>for\<close> loop under the lock, which all four programs share: \<open>it\<close> is the
  iterator as an index into the vector; after an \<open>erase\<close> it stays where it is, and
  points at the element that followed the erased one.
\<close>

function bcast_loop :: "sender \<Rightarrow> u8 list \<Rightarrow> nat \<Rightarrow> world \<Rightarrow> world" where
  "bcast_loop tx msg it w =
     (if it < length (sinks w) then
        (let d = sinks w ! it;
             n = tx w d msg;
             w1 = w\<lparr>sends := sends w @ [(d, msg, n)]\<rparr>
         in if n \<noteq> int (length msg)
            then bcast_loop tx msg it
                   (w1\<lparr>closed := closed w1 @ [d],
                       sinks := take it (sinks w1) @ drop (Suc it) (sinks w1)\<rparr>)
            else bcast_loop tx msg (Suc it) w1)
      else w)"
  by pat_completeness auto
termination
  by (relation "measure (\<lambda>(tx, msg, it, w). length (sinks w) - it)") auto

declare bcast_loop.simps [simp del]

text \<open>A buffer that is one structurally valid frame: at least a header, the magic
  byte, zero padding, and as many bytes after the header as offsets 2 and 3 declare.\<close>

definition well_framed :: "u8 list \<Rightarrow> bool" where
  "well_framed f =
     (HEADER_LEN \<le> length f \<and> f ! 0 = MAGIC \<and> f ! 6 = 0 \<and> f ! 7 = 0 \<and>
      length f = HEADER_LEN + unat (ntohs_at f 2))"

text \<open>An entry of the \<open>sends\<close> log whose \<open>send\<close> returned the whole size of the
  message.\<close>

definition full_write :: "u8 list \<Rightarrow> fd \<times> u8 list \<times> int \<Rightarrow> bool" where
  "full_write msg e = (snd (snd e) = int (length msg))"

text \<open>
  The state a pass has reached when it is about to make its \<open>j\<close>-th \<open>send\<close>, given
  the state \<open>w\<close> and the iterator \<open>it\<close> it started from and the log entries \<open>new\<close> it
  adds: the first \<open>j\<close> entries are logged, the consumers among them whose write fell
  short are closed and erased, and the others are still registered in front of the ones
  not yet reached.
\<close>

definition state_before :: "nat \<Rightarrow> world \<Rightarrow> u8 list \<Rightarrow> (fd \<times> u8 list \<times> int) list \<Rightarrow> nat \<Rightarrow> world" where
  "state_before it w msg new j =
     w\<lparr>sinks := take it (sinks w) @ map fst (filter (full_write msg) (take j new)) @
                 drop (it + j) (sinks w),
       sends := sends w @ take j new,
       closed := closed w @ map fst (filter (\<lambda>e. \<not> full_write msg e) (take j new))\<rparr>"

subsection \<open>What the reader of main.cpp does, case by case\<close>

lemma length_resize: "length (resize v n) = n"
  by (simp add: resize_def)

lemma write_at_header: "length hdr = 8 \<Longrightarrow> write_at (resize out (8 + n)) 0 hdr = hdr @ drop 8 (resize out (8 + n))"
  by (simp add: write_at_def)

lemma write_at_body:
  "length hdr = 8 \<Longrightarrow> length body = n \<Longrightarrow> length tail = n \<Longrightarrow> write_at (hdr @ tail) 8 body = hdr @ body"
  by (simp add: write_at_def)

lemma ntohs_at_take: "i + 1 < n \<Longrightarrow> ntohs_at (take n p) i = ntohs_at p i"
  by (simp add: ntohs_at_def)

lemma uint_u16_le: "uint (x::u16) \<le> 65535"
  using uint_lt2p [of x] by simp

lemma read_ctmp_short:
  "length (pending fd) < 8 \<Longrightarrow> fst (read_ctmp fd out) = False"
  by (simp add: read_ctmp_def recv_waitall_def HEADER_LEN_def)

lemma read_ctmp_header:
  assumes p: "pending fd = p" and l8: "8 \<le> length p" and L: "L = unat (ntohs_at p 2)"
  shows "read_ctmp fd out =
    (if p ! 0 \<noteq> 0xCC \<or> p ! 6 \<noteq> 0 \<or> p ! 7 \<noteq> 0
     then (False, out, fd\<lparr>pending := drop 8 p, recvs := recvs fd @ [8]\<rparr>)
     else if length p < 8 + L
     then (False, write_at (take 8 p @ drop 8 (resize out (8 + L))) 8 (drop 8 p),
           fd\<lparr>pending := [], recvs := recvs fd @ [8, L]\<rparr>)
     else (p ! 1 AND 0x40 = 0 \<or> compute_checksum ((take (8 + L) p)[4 := 0xCC, 5 := 0xCC]) = ntohs_at p 4,
           take (8 + L) p,
           fd\<lparr>pending := drop (8 + L) p, recvs := recvs fd @ [8, L]\<rparr>))"
proof -
  have h: "length (take 8 p) = 8" "min (length p) 8 = 8" using l8 by simp_all
  have n: "ntohs_at (take 8 p) 2 = ntohs_at p 2" "ntohs_at (take 8 p) 4 = ntohs_at p 4"
    by (simp_all add: ntohs_at_take)
  have i: "take 8 p ! 0 = p ! 0" "take 8 p ! 1 = p ! 1" "take 8 p ! 6 = p ! 6" "take 8 p ! 7 = p ! 7"
    by simp_all
  have u: "\<not> uint (ntohs_at p 2) > 65535" using uint_u16_le [of "ntohs_at p 2"] by simp
  have uL: "uint (ntohs_at p 2) = int L" "unat (ntohs_at p 2) = L"
    unfolding L by (rule uint_nat) simp
  have Lle: "\<not> 65535 < L" using u uL by simp
  have hd: "write_at (resize out (8 + L)) 0 (take 8 p) = take 8 p @ drop 8 (resize out (8 + L))"
    using h by (simp add: write_at_header)
  have full: "write_at (take 8 p @ drop 8 (resize out (8 + L))) 8 (take L (drop 8 p)) = take (8 + L) p"
    if a: "\<not> length p < 8 + L"
  proof -
    have "write_at (take 8 p @ drop 8 (resize out (8 + L))) 8 (take L (drop 8 p)) = take 8 p @ take L (drop 8 p)"
      using a h by (intro write_at_body [where n = L]) (simp_all add: length_resize)
    also have "\<dots> = take (8 + L) p" by (simp add: take_add)
    finally show ?thesis .
  qed
  have short: "take L (drop 8 p) = drop 8 p" "drop L (drop 8 p) = []" if "length p < 8 + L"
    using that by simp_all
  have long: "L + 8 = 8 + L" by simp
  have len: "(int (length (take L (drop 8 p))) \<noteq> int L) = (length p < 8 + L)"
    using l8 by (simp add: min_def) arith
  show ?thesis
  proof (cases "p ! 0 \<noteq> 0xCC \<or> p ! 6 \<noteq> 0 \<or> p ! 7 \<noteq> 0")
    case True
    then show ?thesis
      unfolding read_ctmp_def recv_waitall_def Let_def split_def fst_conv snd_conv HEADER_LEN_def MAGIC_def MAX_BODY_def p
      by (auto simp add: h n i u)
  next
    case False
    then have ok: "p ! 0 = 0xCC" "p ! 6 = 0" "p ! 7 = 0" by simp_all
    show ?thesis
    proof (cases "length p < 8 + L")
      case True
      then show ?thesis
        unfolding read_ctmp_def recv_waitall_def Let_def split_def fst_conv snd_conv HEADER_LEN_def MAGIC_def MAX_BODY_def p
        using l8 by (simp add: h n i Lle uL hd ok short)
    next
      case False
      then show ?thesis
        unfolding read_ctmp_def recv_waitall_def Let_def split_def fst_conv snd_conv HEADER_LEN_def MAGIC_def MAX_BODY_def p
        using l8 by (simp add: h n i Lle uL hd ok full long)
    qed
  qed
qed


lemma read_ctmp_True_D:
  assumes "read_ctmp fd out = (True, out', fd')"
  shows "8 + unat (ntohs_at (pending fd) 2) \<le> length (pending fd) \<and>
         pending fd ! 0 = 0xCC \<and> pending fd ! 6 = 0 \<and> pending fd ! 7 = 0 \<and>
         out' = take (8 + unat (ntohs_at (pending fd) 2)) (pending fd) \<and>
         fd' = fd\<lparr>pending := drop (8 + unat (ntohs_at (pending fd) 2)) (pending fd),
                   recvs := recvs fd @ [8, unat (ntohs_at (pending fd) 2)]\<rparr>"
proof (cases "length (pending fd) < 8")
  case True
  then show ?thesis using assms read_ctmp_short [of fd out] by simp
next
  case False
  then have "8 \<le> length (pending fd)" by simp
  from read_ctmp_header [OF refl this refl, of out] assms show ?thesis
    by (auto split: if_splits)
qed

lemma read_ctmp_consumes:
  "read_ctmp fd out = (True, out', fd') \<Longrightarrow> length (pending fd') < length (pending fd)"
  by (drule read_ctmp_True_D) auto

subsection \<open>The relay loop of main.cpp\<close>

text \<open>
  \<open>source_loop\<close>: \<open>running\<close> gives the value of the atomic flag at each load
  (the \<open>k\<close>-th evaluation of the loop condition), and the socket's pending bytes
  are finite, so the loop ends at the latest when the stream does.
\<close>

function source_loop ::
  "(nat \<Rightarrow> bool) \<Rightarrow> sender \<Rightarrow> nat \<Rightarrow> sock \<Rightarrow> u8 list \<Rightarrow> world \<Rightarrow> sock \<times> world" where
  "source_loop running tx k fd msg w =
     (if running k then
        (case read_ctmp fd msg of
           (ok, msg', fd') \<Rightarrow>
             if \<not> ok then (close_sock fd', w)
             else source_loop running tx (Suc k) fd' msg' (bcast_loop tx msg' 0 w))
      else (close_sock fd, w))"
  by pat_completeness auto
termination
  by (relation "measure (\<lambda>(running, tx, k, fd, msg, w). length (pending fd))")
     (auto dest: read_ctmp_consumes [OF sym])

declare source_loop.simps [simp del]

subsection \<open>What the reader of main_stage1.cpp does, case by case\<close>

lemma take4_drop4:
  assumes "8 \<le> length p"
  shows "take 4 (drop 4 p) = [p ! 4, p ! 5, p ! 6, p ! 7]"
proof -
  have "drop 4 p = p ! 4 # drop (Suc 4) p" "drop 5 p = p ! 5 # drop (Suc 5) p"
       "drop 6 p = p ! 6 # drop (Suc 6) p" "drop 7 p = p ! 7 # drop (Suc 7) p"
    using assms by (simp_all only: Cons_nth_drop_Suc)
  then have "drop 4 p = p ! 4 # p ! 5 # p ! 6 # p ! 7 # drop 8 p" by simp
  then show ?thesis by simp
qed

lemma get_ctmp_message_short:
  "length (pending fd) < 8 \<Longrightarrow> fst (get_ctmp_message fd msg) = False"
  by (simp add: get_ctmp_message_def recv_waitall_def HEADER_LEN_def Let_def)

lemma get_ctmp_message_header:
  assumes p: "pending fd = p" and l8: "8 \<le> length p" and L: "L = unat (ntohs_at p 2)"
  shows "get_ctmp_message fd msg =
    (if p ! 0 \<noteq> 0xCC \<or> p ! 1 \<noteq> 0 \<or> p ! 4 \<noteq> 0 \<or> p ! 5 \<noteq> 0 \<or> p ! 6 \<noteq> 0 \<or> p ! 7 \<noteq> 0
     then (False, msg, fd\<lparr>pending := drop 8 p, recvs := recvs fd @ [8]\<rparr>)
     else if length p < 8 + L
     then (False, write_at (take 8 p @ drop 8 (resize msg (8 + L))) 8 (drop 8 p),
           fd\<lparr>pending := [], recvs := recvs fd @ [8, L]\<rparr>)
     else (True, take (8 + L) p,
           fd\<lparr>pending := drop (8 + L) p, recvs := recvs fd @ [8, L]\<rparr>))"
proof -
  have h: "length (take 8 p) = 8" "min (length p) 8 = 8" using l8 by simp_all
  have n: "ntohs_at (take 8 p) 2 = ntohs_at p 2"
    by (simp_all add: ntohs_at_take)
  have i: "take 8 p ! 0 = p ! 0" "take 8 p ! 1 = p ! 1"
    by simp_all
  have m: "take 4 (drop 4 (take 8 p)) = [p ! 4, p ! 5, p ! 6, p ! 7]"
    using take4_drop4 [of "take 8 p"] l8 by simp
  have u: "\<not> uint (ntohs_at p 2) > 65535" using uint_u16_le [of "ntohs_at p 2"] by simp
  have uL: "uint (ntohs_at p 2) = int L" "unat (ntohs_at p 2) = L"
    unfolding L by (rule uint_nat) simp
  have Lle: "\<not> 65535 < L" using u uL by simp
  have hd: "write_at (resize msg (8 + L)) 0 (take 8 p) = take 8 p @ drop 8 (resize msg (8 + L))"
    using h by (simp add: write_at_header)
  have full: "write_at (take 8 p @ drop 8 (resize msg (8 + L))) 8 (take L (drop 8 p)) = take (8 + L) p"
    if a: "\<not> length p < 8 + L"
  proof -
    have "write_at (take 8 p @ drop 8 (resize msg (8 + L))) 8 (take L (drop 8 p)) = take 8 p @ take L (drop 8 p)"
      using a h by (intro write_at_body [where n = L]) (simp_all add: length_resize)
    also have "\<dots> = take (8 + L) p" by (simp add: take_add)
    finally show ?thesis .
  qed
  have short: "take L (drop 8 p) = drop 8 p" "drop L (drop 8 p) = []" if "length p < 8 + L"
    using that by simp_all
  have long: "L + 8 = 8 + L" by simp
  show ?thesis
  proof (cases "p ! 0 \<noteq> 0xCC \<or> p ! 1 \<noteq> 0 \<or> p ! 4 \<noteq> 0 \<or> p ! 5 \<noteq> 0 \<or> p ! 6 \<noteq> 0 \<or> p ! 7 \<noteq> 0")
    case True
    then show ?thesis
      unfolding get_ctmp_message_def recv_waitall_def Let_def split_def fst_conv snd_conv
        HEADER_LEN_def CTMP_MAGIC_def MAX_BODY_def p
      by (auto simp add: h n i m u)
  next
    case False
    then have ok: "p ! 0 = 0xCC" "p ! 1 = 0" "p ! 4 = 0" "p ! 5 = 0" "p ! 6 = 0" "p ! 7 = 0" by simp_all
    show ?thesis
    proof (cases "length p < 8 + L")
      case True
      then show ?thesis
        unfolding get_ctmp_message_def recv_waitall_def Let_def split_def fst_conv snd_conv
          HEADER_LEN_def CTMP_MAGIC_def MAX_BODY_def p
        using l8 by (simp add: h n i m Lle uL hd ok short)
    next
      case False
      then show ?thesis
        unfolding get_ctmp_message_def recv_waitall_def Let_def split_def fst_conv snd_conv
          HEADER_LEN_def CTMP_MAGIC_def MAX_BODY_def p
        using l8 by (simp add: h n i m Lle uL hd ok full long)
    qed
  qed
qed

lemma get_ctmp_message_True_D:
  assumes "get_ctmp_message fd msg = (True, msg', fd')"
  shows "8 + unat (ntohs_at (pending fd) 2) \<le> length (pending fd) \<and>
         pending fd ! 0 = 0xCC \<and> pending fd ! 1 = 0 \<and> pending fd ! 4 = 0 \<and>
         pending fd ! 5 = 0 \<and> pending fd ! 6 = 0 \<and> pending fd ! 7 = 0 \<and>
         msg' = take (8 + unat (ntohs_at (pending fd) 2)) (pending fd) \<and>
         fd' = fd\<lparr>pending := drop (8 + unat (ntohs_at (pending fd) 2)) (pending fd),
                   recvs := recvs fd @ [8, unat (ntohs_at (pending fd) 2)]\<rparr>"
proof (cases "length (pending fd) < 8")
  case True
  then show ?thesis using assms get_ctmp_message_short [of fd msg] by simp
next
  case False
  then have "8 \<le> length (pending fd)" by simp
  from get_ctmp_message_header [OF refl this refl, of msg] assms show ?thesis
    by (auto split: if_splits)
qed

lemma get_ctmp_message_consumes:
  "get_ctmp_message fd msg = (True, msg', fd') \<Longrightarrow> length (pending fd') < length (pending fd)"
  by (drule get_ctmp_message_True_D) auto

subsection \<open>The relay loop of main_stage1.cpp\<close>

text \<open>\<open>handle_source\<close>: the loop of \<open>source_loop\<close> around \<open>get_ctmp_message\<close>;
  \<open>run_flag\<close> is read as \<open>running\<close> is there.\<close>

function handle_source ::
  "(nat \<Rightarrow> bool) \<Rightarrow> sender \<Rightarrow> nat \<Rightarrow> sock \<Rightarrow> u8 list \<Rightarrow> world \<Rightarrow> sock \<times> world" where
  "handle_source run_flag tx k source_sock message w =
     (if run_flag k then
        (case get_ctmp_message source_sock message of
           (ok, message', source_sock') \<Rightarrow>
             if \<not> ok then (close_sock source_sock', w)
             else handle_source run_flag tx (Suc k) source_sock' message'
                    (bcast_loop tx message' 0 w))
      else (close_sock source_sock, w))"
  by pat_completeness auto
termination
  by (relation "measure (\<lambda>(run_flag, tx, k, fd, msg, w). length (pending fd))")
     (auto dest: get_ctmp_message_consumes [OF sym])

declare handle_source.simps [simp del]

section \<open>Theorems\<close>


subsection \<open>Arithmetic of the checksum\<close>

lemma and_ffff: "(s::u32) AND 0xFFFF = take_bit 16 s"
  by (simp add: take_bit_eq_mask mask_eq_exp_minus_1)

lemma unat_and_ffff: "unat ((s::u32) AND 0xFFFF) = unat s mod 65536"
  by (simp add: and_ffff unsigned_take_bit_eq take_bit_eq_mod unat_mod)

lemma unat_drop16: "unat (drop_bit 16 (s::u32)) = unat s div 65536"
  by (simp add: unat_drop_bit_eq drop_bit_eq_div unat_div)

lemma be_word_take: "take_bit 16 (be_word hi lo) = be_word hi lo"
  unfolding be_word_def
  by (rule bit_word_eqI) (auto simp: bit_simps dest: bit_imp_le_length)

lemma be_word_le: "be_word hi lo \<le> 0xFFFF"
proof -
  have "be_word hi lo AND 0xFFFF \<le> 0xFFFF" by (rule word_and_le1)
  then show ?thesis by (simp add: and_ffff be_word_take)
qed

lemma u32_le_ffff: "((s::u32) \<le> 0xFFFF) = (unat s \<le> 65535)"
  by (simp add: word_le_nat_alt)

lemma u32_gt_ffff: "((s::u32) > 0xFFFF) = (unat s > 65535)"
  by (simp add: word_less_nat_alt)

lemma unat_add_small:
  "unat (s::u32) \<le> 65535 \<Longrightarrow> unat (w::u32) \<le> 65535 \<Longrightarrow> unat (s + w) = unat s + unat w"
  by (simp add: unat_word_ariths)

lemma carry_mod: "65535 < (n::nat) \<Longrightarrow> n \<le> 131070 \<Longrightarrow> n mod 65536 = n - 65536"
  by (simp add: le_mod_geq)

lemma fold_carry_spec_fold:
  assumes a: "s \<le> 0xFFFF" "w \<le> 0xFFFF"
  shows "fold_carry (s + w) = spec_fold (s + w)"
proof -
  from a have u: "unat (s + w) = unat s + unat w"
    by (simp add: u32_le_ffff unat_add_small)
  show ?thesis
  proof (cases "s + w > 0xFFFF")
    case True
    then have "unat (s + w) div 65536 = 1"
      using a u by (simp add: u32_gt_ffff u32_le_ffff)
    then have "unat (drop_bit 16 (s + w)) = unat (1::u32)"
      by (simp add: unat_drop16)
    then have "drop_bit 16 (s + w) = 1"
      by (simp only: word_unat_eq_iff)
    then show ?thesis by (simp add: fold_carry_def spec_fold_def)
  next
    case False
    then show ?thesis by (simp add: fold_carry_def spec_fold_def)
  qed
qed

lemma fold_carry_le:
  assumes a: "s \<le> 0xFFFF" "w \<le> 0xFFFF"
  shows "fold_carry (s + w) \<le> 0xFFFF"
proof -
  from a have u: "unat (s + w) = unat s + unat w"
    by (simp add: u32_le_ffff unat_add_small)
  show ?thesis
  proof (cases "s + w > 0xFFFF")
    case True
    have "unat ((s + w) AND 0xFFFF) + 1 \<le> 65535"
      using True a u by (simp add: unat_and_ffff u32_gt_ffff u32_le_ffff carry_mod)
    then have "unat (((s + w) AND 0xFFFF) + 1) \<le> 65535"
      by (simp add: unat_word_ariths)
    then have h: "((s + w) AND 0xFFFF) + 1 \<le> 0xFFFF"
      by (simp only: u32_le_ffff)
    show ?thesis by (simp only: fold_carry_def True if_True h)
  next
    case False
    then show ?thesis by (auto simp: fold_carry_def)
  qed
qed

subsection \<open>The checksum against the specification's algorithm\<close>

lemma ucast_be16: "(ucast (push_bit 8 (ucast (hi::u8)) OR ucast (lo::u8) :: u16) :: u32) = be_word hi lo"
  unfolding be_word_def
  by (rule bit_word_eqI) (auto simp: bit_simps dest: bit_imp_le_length)

lemma be_word_zero: "push_bit 8 (ucast (b::u8)) = be_word b 0"
  by (simp add: be_word_def)

lemma sum_words_spec:
  "s \<le> 0xFFFF \<Longrightarrow> sum_words b s = foldl (\<lambda>s w. spec_fold (s + ucast w)) s (spec_words b)"
proof (induction b s rule: sum_words.induct)
  case (1 hi lo rest s)
  have "fold_carry (s + be_word hi lo) \<le> 0xFFFF"
    using "1.prems" be_word_le by (rule fold_carry_le)
  then show ?case
    using "1.IH" "1.prems" by (simp add: ucast_be16 fold_carry_spec_fold be_word_le)
next
  case (2 b s)
  have "ucast (push_bit 8 (ucast b) :: u16) = be_word b 0"
    using ucast_be16 [of b 0] by simp
  then show ?case
    using 2 by (simp add: be_word_zero fold_carry_spec_fold be_word_le)
next
  case (3 s)
  then show ?case by simp
qed

lemma not_mask16: "(ucast (NOT (s::u32)) AND 0xFFFF :: u16) = ucast (NOT s AND 0xFFFF)"
  by (rule bit_word_eqI) (auto simp: bit_simps)

text \<open>
  Claim C4. For every byte sequence, \<open>compute_checksum\<close> (which folds by adding the
  constant 1 whenever the 32-bit sum exceeds 0xFFFF) returns the 16-bit value of the
  specification's algorithm (\<open>spec_checksum\<close>, which folds by
  \<open>(sum & 0xFFFF) + (sum >> 16)\<close>); on the empty sequence it returns 0xFFFF, the
  one's complement of zero. The running sum never exceeds 0xFFFF before a word is added,
  so the carry out of 16 bits is exactly 1 whenever there is one.
\<close>

theorem compute_checksum_refines_spec:
  "compute_checksum b = spec_checksum b \<and> compute_checksum [] = 0xFFFF"
proof
  show "compute_checksum b = spec_checksum b"
    by (simp add: compute_checksum_def spec_checksum_def sum_words_spec [symmetric] not_mask16)
  show "compute_checksum [] = 0xFFFF"
    by code_simp
qed

subsection \<open>One broadcast pass\<close>

lemma bcast_loop_log:
  "\<exists>new. sends (bcast_loop tx msg it w) = sends w @ new \<and>
         map fst new = drop it (sinks w) \<and>
         map (fst \<circ> snd) new = replicate (length new) msg \<and>
         sinks (bcast_loop tx msg it w) = take it (sinks w) @ map fst (filter (full_write msg) new) \<and>
         closed (bcast_loop tx msg it w) =
           closed w @ map fst (filter (\<lambda>e. \<not> full_write msg e) new)"
proof (induction tx msg it w rule: bcast_loop.induct)
  case (1 tx msg it w)
  show ?case
  proof (cases "it < length (sinks w)")
    case False
    then show ?thesis by (simp add: bcast_loop.simps [of tx msg it w])
  next
    case True
    define d where "d = sinks w ! it"
    define n where "n = tx w d msg"
    define w1 where "w1 = w\<lparr>sends := sends w @ [(d, msg, n)]\<rparr>"
    show ?thesis
    proof (cases "n \<noteq> int (length msg)")
      case short: True
      define w2 where "w2 = w1\<lparr>closed := closed w1 @ [d], sinks := take it (sinks w1) @ drop (Suc it) (sinks w1)\<rparr>"
      have step: "bcast_loop tx msg it w = bcast_loop tx msg it w2"
        using True short
        by (subst bcast_loop.simps) (simp add: Let_def d_def n_def w1_def w2_def)
      from "1.IH"(1) [OF True d_def n_def w1_def short]
      obtain new where new: "sends (bcast_loop tx msg it w2) = sends w2 @ new"
          "map fst new = drop it (sinks w2)"
          "map (fst \<circ> snd) new = replicate (length new) msg"
          "sinks (bcast_loop tx msg it w2) = take it (sinks w2) @ map fst (filter (full_write msg) new)"
          "closed (bcast_loop tx msg it w2) = closed w2 @ map fst (filter (\<lambda>e. \<not> full_write msg e) new)"
        unfolding w2_def by blast
      have s2: "sinks w2 = take it (sinks w) @ drop (Suc it) (sinks w)"
        "sends w2 = sends w @ [(d, msg, n)]" "closed w2 = closed w @ [d]"
        by (simp_all add: w2_def w1_def)
      have dr: "drop it (sinks w) = d # drop (Suc it) (sinks w)"
        using True by (simp add: d_def Cons_nth_drop_Suc)
      have tk: "take it (sinks w2) = take it (sinks w)" "drop it (sinks w2) = drop (Suc it) (sinks w)"
        using True by (simp_all add: s2)
      have fw: "\<not> full_write msg (d, msg, n)"
        using short by (simp add: full_write_def)
      show ?thesis
        apply (rule exI [of _ "(d, msg, n) # new"])
        using new [unfolded tk s2(2) s2(3)] fw
        by (simp add: step dr comp_def)
    next
      case full: False
      have step: "bcast_loop tx msg it w = bcast_loop tx msg (Suc it) w1"
        using True full
        by (subst bcast_loop.simps) (simp add: Let_def d_def n_def w1_def)
      from "1.IH"(2) [OF True d_def n_def w1_def full]
      obtain new where new: "sends (bcast_loop tx msg (Suc it) w1) = sends w1 @ new"
          "map fst new = drop (Suc it) (sinks w1)"
          "map (fst \<circ> snd) new = replicate (length new) msg"
          "sinks (bcast_loop tx msg (Suc it) w1) = take (Suc it) (sinks w1) @ map fst (filter (full_write msg) new)"
          "closed (bcast_loop tx msg (Suc it) w1) = closed w1 @ map fst (filter (\<lambda>e. \<not> full_write msg e) new)"
        by blast
      have s1: "sinks w1 = sinks w" "sends w1 = sends w @ [(d, msg, n)]" "closed w1 = closed w"
        by (simp_all add: w1_def)
      have dr: "drop it (sinks w) = d # drop (Suc it) (sinks w)"
        using True by (simp add: d_def Cons_nth_drop_Suc)
      have tk: "take (Suc it) (sinks w) = take it (sinks w) @ [d]"
        using True by (simp add: d_def take_Suc_conv_app_nth)
      have fw: "full_write msg (d, msg, n)"
        using full by (simp add: full_write_def)
      show ?thesis
        apply (rule exI [of _ "(d, msg, n) # new"])
        using new [unfolded s1 tk] fw
        by (simp add: step dr comp_def)
    qed
  qed
qed

text \<open>
  Every count a pass logs is the one the sender returned for that consumer, asked in
  the state the pass had reached.
\<close>

lemma state_before_0: "state_before it w msg new 0 = w"
  by (simp add: state_before_def)

lemma state_before_short:
  assumes "it < length (sinks w)" and "\<not> full_write msg e"
  shows "state_before it w msg (e # new) (Suc j) =
         state_before it (w\<lparr>sends := sends w @ [e], closed := closed w @ [fst e],
                            sinks := take it (sinks w) @ drop (Suc it) (sinks w)\<rparr>) msg new j"
  using assms by (simp add: state_before_def add.commute)

lemma state_before_full:
  assumes "it < length (sinks w)" and "full_write msg e" and "fst e = sinks w ! it"
  shows "state_before it w msg (e # new) (Suc j) =
         state_before (Suc it) (w\<lparr>sends := sends w @ [e]\<rparr>) msg new j"
  using assms by (simp add: state_before_def take_Suc_conv_app_nth)

lemma nth_after_erase:
  assumes "it < length xs"
  shows "(take it xs @ drop (Suc it) xs) ! (it + j) = xs ! (it + Suc j)"
  using assms by (simp add: nth_append)


lemma bcast_loop_counts:
  "sends (bcast_loop tx msg it w) = sends w @ new \<Longrightarrow> j < length new \<Longrightarrow>
   snd (snd (new ! j)) = tx (state_before it w msg new j) (sinks w ! (it + j)) msg"
proof (induction tx msg it w arbitrary: new j rule: bcast_loop.induct)
  case (1 tx msg it w)
  show ?case
  proof (cases "it < length (sinks w)")
    case False
    then have "bcast_loop tx msg it w = w" by (simp add: bcast_loop.simps [of tx msg it w])
    then show ?thesis using "1.prems" by simp
  next
    case True
    define d where "d = sinks w ! it"
    define n where "n = tx w d msg"
    define e where "e = (d, msg, n)"
    define w1 where "w1 = w\<lparr>sends := sends w @ [(d, msg, n)]\<rparr>"
    show ?thesis
    proof (cases "n \<noteq> int (length msg)")
      case short: True
      define w2 where "w2 = w1\<lparr>closed := closed w1 @ [d], sinks := take it (sinks w1) @ drop (Suc it) (sinks w1)\<rparr>"
      have step: "bcast_loop tx msg it w = bcast_loop tx msg it w2"
        using True short
        by (subst bcast_loop.simps) (simp add: Let_def d_def n_def w1_def w2_def)
      have w2': "w2 = w\<lparr>sends := sends w @ [e], closed := closed w @ [fst e],
                            sinks := take it (sinks w) @ drop (Suc it) (sinks w)\<rparr>"
        by (simp add: w2_def w1_def e_def)
      obtain new' where n': "sends (bcast_loop tx msg it w2) = sends w2 @ new'"
        using bcast_loop_log [of tx msg it w2] by blast
      have s2: "sends w2 = sends w @ [e]" "sinks w2 = take it (sinks w) @ drop (Suc it) (sinks w)"
        by (simp_all add: w2')
      have new: "new = e # new'" using "1.prems"(1) n' by (simp add: step s2)
      have fw: "\<not> full_write msg e" using short by (simp add: full_write_def e_def)
      show ?thesis
      proof (cases j)
        case 0
        then show ?thesis by (simp add: new state_before_0 e_def n_def d_def)
      next
        case (Suc j')
        then have j': "j' < length new'" using "1.prems"(2) new by simp
        from "1.IH"(1) [OF True d_def n_def w1_def short, folded w2_def, OF n' j']
        have "snd (snd (new' ! j')) = tx (state_before it w2 msg new' j') (sinks w2 ! (it + j')) msg" .
        then show ?thesis
          unfolding new Suc state_before_short [OF True fw] w2' [symmetric]
          using True by (simp add: s2(2) nth_after_erase)
      qed
    next
      case full: False
      have step: "bcast_loop tx msg it w = bcast_loop tx msg (Suc it) w1"
        using True full
        by (subst bcast_loop.simps) (simp add: Let_def d_def n_def w1_def)
      have w1': "w1 = w\<lparr>sends := sends w @ [e]\<rparr>" by (simp add: w1_def e_def)
      obtain new' where n': "sends (bcast_loop tx msg (Suc it) w1) = sends w1 @ new'"
        using bcast_loop_log [of tx msg "Suc it" w1] by blast
      have s1: "sends w1 = sends w @ [e]" "sinks w1 = sinks w" by (simp_all add: w1')
      have new: "new = e # new'" using "1.prems"(1) n' by (simp add: step s1)
      have fw: "full_write msg e" "fst e = sinks w ! it"
        using full by (simp_all add: full_write_def e_def d_def)
      show ?thesis
      proof (cases j)
        case 0
        then show ?thesis by (simp add: new state_before_0 e_def n_def d_def)
      next
        case (Suc j')
        then have j': "j' < length new'" using "1.prems"(2) new by simp
        from "1.IH"(2) [OF True d_def n_def w1_def full, OF n' j']
        have "snd (snd (new' ! j')) = tx (state_before (Suc it) w1 msg new' j') (sinks w1 ! (Suc it + j')) msg" .
        then show ?thesis
          unfolding new Suc state_before_full [OF True fw] w1' [symmetric]
          by (simp add: s1(2))
      qed
    qed
  qed
qed


lemma bcast_pass_entries:
  assumes s: "sends (bcast_loop tx msg 0 w) = sends w @ new"
    and f: "map fst new = sinks w"
    and m: "map (fst \<circ> snd) new = replicate (length new) msg"
    and ind: "\<And>w1 w2 d. tx w1 d msg = tx w2 d msg"
  shows "new = map (\<lambda>d. (d, msg, tx w d msg)) (sinks w)"
proof (rule nth_equalityI)
  have len: "length new = length (sinks w)" using f by (metis length_map)
  then show "length new = length (map (\<lambda>d. (d, msg, tx w d msg)) (sinks w))" by simp
  fix j assume j: "j < length new"
  have a: "fst (new ! j) = sinks w ! j"
    using j f by (metis nth_map)
  have "(fst \<circ> snd) (new ! j) = replicate (length new) msg ! j"
    using j m by (metis nth_map)
  then have b: "fst (snd (new ! j)) = msg" using j by simp
  have "snd (snd (new ! j)) = tx (state_before 0 w msg new j) (sinks w ! (0 + j)) msg"
    using s j by (rule bcast_loop_counts)
  then have c: "snd (snd (new ! j)) = tx w (sinks w ! j) msg"
    using ind [of "state_before 0 w msg new j" _ w] by simp
  show "new ! j = map (\<lambda>d. (d, msg, tx w d msg)) (sinks w) ! j"
    using j len a b c by (simp add: prod_eq_iff)
qed

text \<open>
  Claim C6. One pass of the broadcast loop over the consumers registered at its start:
  the log grows by exactly one \<open>send\<close> per registered consumer, in registry order,
  each of the whole message, and the count logged for the \<open>j\<close>-th consumer is what the
  sender returned for it in the state the pass had reached (\<open>state_before\<close>);
  afterwards the registry holds exactly the consumers whose \<open>send\<close> returned the full
  size, in their original order, and exactly the others were closed, each without
  stopping the writes to the consumers after it. For a sender whose answer does not
  depend on the state, this reads: the registry is filtered by the sender's answer, the
  consumers filtered out are the ones closed, and the log is one entry per consumer
  with that answer.
\<close>

theorem broadcast_pass_prunes_short_writes:
  "(let w' = bcast_loop tx msg 0 w;
        new = drop (length (sends w)) (sends w')
    in sends w' = sends w @ new \<and>
       map fst new = sinks w \<and>
       map (fst \<circ> snd) new = replicate (length (sinks w)) msg \<and>
       map (snd \<circ> snd) new =
         map (\<lambda>j. tx (state_before 0 w msg new j) (sinks w ! j) msg) [0..<length (sinks w)] \<and>
       sinks w' = map fst (filter (full_write msg) new) \<and>
       closed w' = closed w @ map fst (filter (\<lambda>e. \<not> full_write msg e) new)) \<and>
   ((\<forall>w1 w2 d. tx w1 d msg = tx w2 d msg) \<longrightarrow>
      drop (length (sends w)) (sends (bcast_loop tx msg 0 w)) =
        map (\<lambda>d. (d, msg, tx w d msg)) (sinks w) \<and>
      sinks (bcast_loop tx msg 0 w) = filter (\<lambda>d. tx w d msg = int (length msg)) (sinks w) \<and>
      closed (bcast_loop tx msg 0 w) =
        closed w @ filter (\<lambda>d. tx w d msg \<noteq> int (length msg)) (sinks w))"
proof -
  obtain new where new: "sends (bcast_loop tx msg 0 w) = sends w @ new"
      "map fst new = drop 0 (sinks w)"
      "map (fst \<circ> snd) new = replicate (length new) msg"
      "sinks (bcast_loop tx msg 0 w) = take 0 (sinks w) @ map fst (filter (full_write msg) new)"
      "closed (bcast_loop tx msg 0 w) = closed w @ map fst (filter (\<lambda>e. \<not> full_write msg e) new)"
    using bcast_loop_log [of tx msg 0 w] by blast
  have len: "length new = length (sinks w)"
    using new(2) by (metis drop0 length_map)
  have counts: "map (snd \<circ> snd) new =
      map (\<lambda>j. tx (state_before 0 w msg new j) (sinks w ! j) msg) [0..<length (sinks w)]"
  proof (rule nth_equalityI)
    show "length (map (snd \<circ> snd) new) =
        length (map (\<lambda>j. tx (state_before 0 w msg new j) (sinks w ! j) msg) [0..<length (sinks w)])"
      by (simp add: len)
    fix j assume "j < length (map (snd \<circ> snd) new)"
    then have j: "j < length new" by simp
    from bcast_loop_counts [OF new(1) j]
    show "map (snd \<circ> snd) new ! j =
        map (\<lambda>j. tx (state_before 0 w msg new j) (sinks w ! j) msg) [0..<length (sinks w)] ! j"
      using j len by simp
  qed
  have first: "(let w' = bcast_loop tx msg 0 w;
        new = drop (length (sends w)) (sends w')
    in sends w' = sends w @ new \<and>
       map fst new = sinks w \<and>
       map (fst \<circ> snd) new = replicate (length (sinks w)) msg \<and>
       map (snd \<circ> snd) new =
         map (\<lambda>j. tx (state_before 0 w msg new j) (sinks w ! j) msg) [0..<length (sinks w)] \<and>
       sinks w' = map fst (filter (full_write msg) new) \<and>
       closed w' = closed w @ map fst (filter (\<lambda>e. \<not> full_write msg e) new))"
    using new len counts by (simp add: Let_def)
  have second: "drop (length (sends w)) (sends (bcast_loop tx msg 0 w)) =
        map (\<lambda>d. (d, msg, tx w d msg)) (sinks w) \<and>
      sinks (bcast_loop tx msg 0 w) = filter (\<lambda>d. tx w d msg = int (length msg)) (sinks w) \<and>
      closed (bcast_loop tx msg 0 w) =
        closed w @ filter (\<lambda>d. tx w d msg \<noteq> int (length msg)) (sinks w)"
    if ind: "\<forall>w1 w2 d. tx w1 d msg = tx w2 d msg"
  proof -
    have e: "new = map (\<lambda>d. (d, msg, tx w d msg)) (sinks w)"
      using new(1) _ new(3) by (rule bcast_pass_entries) (use new(2) ind in simp_all)
    have k: "map fst (filter (full_write msg) new) =
        filter (\<lambda>d. tx w d msg = int (length msg)) (sinks w)"
      unfolding e by (induction "sinks w") (simp_all add: filter_map comp_def full_write_def)
    have c: "map fst (filter (\<lambda>e. \<not> full_write msg e) new) =
        filter (\<lambda>d. tx w d msg \<noteq> int (length msg)) (sinks w)"
      unfolding e by (simp add: filter_map comp_def full_write_def)
    show ?thesis using new(1,4,5) e k c by simp
  qed
  from first second show ?thesis by blast
qed

text \<open>
  The theorem at three consumers, the second of which takes only four of the eight
  bytes: it is closed and erased, and the third is still written to.
\<close>

theorem broadcast_pass_prunes_short_writes_witness:
  "(let frame = [0xCC, 0, 0, 0, 0, 0, 0, 0];
        tx = (\<lambda>w d m. if d = 6 then 4 else int (length m));
        w' = bcast_loop tx frame 0 \<lparr>sinks = [5, 6, 7], sends = [], closed = []\<rparr>
    in sends w' = [(5, frame, 8), (6, frame, 4), (7, frame, 8)] \<and>
       sinks w' = [5, 7] \<and> closed w' = [6])"
proof -
  let ?frame = "[0xCC, 0, 0, 0, 0, 0, 0, 0] :: u8 list"
  let ?tx = "\<lambda>(w::world) (d::fd) (m::u8 list). if d = 6 then 4 else int (length m)"
  let ?w = "\<lparr>sinks = [5, 6, 7], sends = [], closed = []\<rparr>"
  have ind: "\<forall>w1 w2 d. ?tx w1 d ?frame = ?tx w2 d ?frame" by simp
  from broadcast_pass_prunes_short_writes [of ?tx ?frame ?w, THEN conjunct2, THEN mp, OF ind]
  show ?thesis by (simp add: Let_def)
qed

subsection \<open>Frames on the stream\<close>

lemma well_framed_length: "well_framed f \<Longrightarrow> length f = 8 + unat (ntohs_at f 2)"
  by (simp add: well_framed_def HEADER_LEN_def)

lemma ntohs_at_append: "i + 1 < length f \<Longrightarrow> ntohs_at (f @ rest) i = ntohs_at f i"
  by (simp add: ntohs_at_def nth_append)

lemma read_ctmp_framed:
  assumes p: "pending fd = f @ rest" and wf: "well_framed f"
  shows "read_ctmp fd out =
    (f ! 1 AND 0x40 = 0 \<or> compute_checksum (f[4 := 0xCC, 5 := 0xCC]) = ntohs_at f 4,
     f, fd\<lparr>pending := rest, recvs := recvs fd @ [8, length f - 8]\<rparr>)"
proof -
  define L where "L = unat (ntohs_at f 2)"
  define q where "q = f @ rest"
  have len: "length f = 8 + L" unfolding L_def using wf by (rule well_framed_length)
  have l8: "8 \<le> length q" using len by (simp add: q_def)
  have n: "ntohs_at q 2 = ntohs_at f 2" "ntohs_at q 4 = ntohs_at f 4"
    using len by (simp_all add: ntohs_at_append q_def)
  have i: "q ! 0 = 0xCC" "q ! 6 = 0" "q ! 7 = 0" "q ! 1 = f ! 1"
    using wf len by (simp_all add: well_framed_def MAGIC_def HEADER_LEN_def nth_append q_def)
  have t: "take (8 + L) q = f" "drop (8 + L) q = rest" "length f - 8 = L" "\<not> length q < 8 + L"
    using len by (simp_all add: q_def)
  have L: "L = unat (ntohs_at q 2)" by (simp add: n L_def)
  have pq: "pending fd = q" by (simp add: p q_def)
  show ?thesis
    unfolding read_ctmp_header [OF pq l8 L]
    by (simp only: i t n if_False simp_thms)
qed

lemma read_ctmp_True_well_framed:
  assumes "read_ctmp fd out = (True, out', fd')"
  shows "well_framed out'"
proof -
  let ?p = "pending fd"
  let ?L = "unat (ntohs_at ?p 2)"
  from read_ctmp_True_D [OF assms]
  have d: "8 + ?L \<le> length ?p" "?p ! 0 = 0xCC" "?p ! 6 = 0" "?p ! 7 = 0"
          "out' = take (8 + ?L) ?p" by simp_all
  have "ntohs_at (take (8 + ?L) ?p) 2 = ntohs_at ?p 2"
    by (simp add: ntohs_at_take)
  then show ?thesis
    using d by (simp add: well_framed_def HEADER_LEN_def MAGIC_def)
qed


lemma source_loop_rejected:
  assumes "running k" and "read_ctmp fd msg = (False, msg', fd')"
  shows "source_loop running tx k fd msg w = (close_sock fd', w)"
  using assms by (subst source_loop.simps) simp

lemma source_loop_accepted:
  assumes "running k" and "read_ctmp fd msg = (True, msg', fd')"
  shows "source_loop running tx k fd msg w =
         source_loop running tx (Suc k) fd' msg' (bcast_loop tx msg' 0 w)"
  using assms by (subst source_loop.simps) simp

lemma source_loop_stopped:
  "\<not> running k \<Longrightarrow> source_loop running tx k fd msg w = (close_sock fd, w)"
  by (subst source_loop.simps) simp

lemma bcast_loop_sends:
  "\<exists>new. sends (bcast_loop tx msg 0 w) = sends w @ new \<and>
         map (fst \<circ> snd) new = replicate (length new) msg"
  using bcast_loop_log [of tx msg 0 w] by blast

lemma list_all_replicate_frames:
  assumes "map (fst \<circ> snd) new = replicate (length new) msg" and "well_framed msg"
  shows "list_all (\<lambda>e. well_framed (fst (snd e))) new"
proof -
  have "\<forall>e \<in> set new. fst (snd e) = msg"
  proof
    fix e assume "e \<in> set new"
    then have "(fst \<circ> snd) e \<in> set (map (fst \<circ> snd) new)" by simp
    then have "(fst \<circ> snd) e \<in> set (replicate (length new) msg)" by (simp only: assms(1))
    then show "fst (snd e) = msg" by simp
  qed
  then show ?thesis using assms(2) by (simp add: list_all_iff)
qed

lemma source_loop_sends:
  "\<exists>new. sends (snd (source_loop running tx k fd msg w)) = sends w @ new \<and>
         list_all (\<lambda>e. well_framed (fst (snd e))) new"
proof (induction running tx k fd msg w rule: source_loop.induct)
  case (1 running tx k fd msg w)
  show ?case
  proof (cases "running k")
    case False
    then show ?thesis by (simp add: source_loop_stopped)
  next
    case True
    obtain ok msg' fd' where r: "read_ctmp fd msg = (ok, msg', fd')"
      by (cases "read_ctmp fd msg") auto
    show ?thesis
    proof (cases ok)
      case False
      then show ?thesis using True r by (simp add: source_loop_rejected)
    next
      case ok: True
      have wf: "well_framed msg'" using r ok by (auto intro: read_ctmp_True_well_framed)
      obtain new1 where n1: "sends (bcast_loop tx msg' 0 w) = sends w @ new1"
          "map (fst \<circ> snd) new1 = replicate (length new1) msg'"
        using bcast_loop_sends by blast
      from "1.IH" [OF True r [symmetric] refl] ok
      obtain new2 where n2:
        "sends (snd (source_loop running tx (Suc k) fd' msg' (bcast_loop tx msg' 0 w))) =
           sends (bcast_loop tx msg' 0 w) @ new2"
        "list_all (\<lambda>e. well_framed (fst (snd e))) new2"
        by auto
      have "list_all (\<lambda>e. well_framed (fst (snd e))) (new1 @ new2)"
        using n2(2) list_all_replicate_frames [OF n1(2) wf] by simp
      then show ?thesis
        using True r ok n1(1) n2(1) by (auto simp: source_loop_accepted)
    qed
  qed
qed

subsection \<open>A checksum mismatch\<close>

lemma readCtmpMessage_eq: "readCtmpMessage = read_ctmp"
  unfolding fun_eq_iff readCtmpMessage_def read_ctmp_def calculateChecksum_def
      compute_checksum_def HEADER_LENGTH_def HEADER_LEN_def MAGIC_BYTE_def MAGIC_def
      MAX_PAYLOAD_def MAX_BODY_def Let_def
  by simp

text \<open>
  Claim C1, as the code has it. A sensitive frame that passes every structural check
  and fails the checksum makes \<open>read_ctmp\<close> return false after consuming exactly
  that frame, and \<open>source_loop\<close> then leaves its loop: nothing is broadcast, the
  producer's descriptor is closed, and no further byte is read from it.
\<close>

theorem checksum_mismatch_ends_relay:
  assumes "pending fd = f @ rest" and "well_framed f" and "f ! 1 AND 0x40 \<noteq> 0"
    and "compute_checksum (f[4 := 0xCC, 5 := 0xCC]) \<noteq> ntohs_at f 4" and "running k"
  shows "read_ctmp fd msg =
           (False, f, fd\<lparr>pending := rest, recvs := recvs fd @ [8, length f - 8]\<rparr>) \<and>
         source_loop running tx k fd msg w =
           (fd\<lparr>pending := rest, recvs := recvs fd @ [8, length f - 8], is_open := False\<rparr>, w)"
proof -
  have r: "read_ctmp fd msg =
           (False, f, fd\<lparr>pending := rest, recvs := recvs fd @ [8, length f - 8]\<rparr>)"
    using assms(3,4) by (simp add: read_ctmp_framed [OF assms(1,2)])
  show ?thesis
    using r source_loop_rejected [of running k, OF assms(5) r] by (simp add: close_sock_def)
qed

text \<open>
  The theorem at a stream of two frames: a sensitive header whose checksum field is
  wrong, then a valid frame, which stays unread.
\<close>

theorem checksum_mismatch_ends_relay_witness:
  "source_loop (\<lambda>k. True) (\<lambda>w d m. int (length m)) 0
     \<lparr>pending = [0xCC, 0x40, 0, 0, 0, 0, 0, 0] @ [0xCC, 0, 0, 0, 0, 0, 0, 0],
      recvs = [], is_open = True\<rparr> []
     \<lparr>sinks = [5], sends = [], closed = []\<rparr> =
   (\<lparr>pending = [0xCC, 0, 0, 0, 0, 0, 0, 0], recvs = [8, 0], is_open = False\<rparr>,
    \<lparr>sinks = [5], sends = [], closed = []\<rparr>)"
proof -
  let ?f = "[0xCC, 0x40, 0, 0, 0, 0, 0, 0] :: u8 list"
  let ?rest = "[0xCC, 0, 0, 0, 0, 0, 0, 0] :: u8 list"
  let ?fd = "\<lparr>pending = ?f @ ?rest, recvs = [], is_open = True\<rparr>"
  have a1: "pending ?fd = ?f @ ?rest" by simp
  have a2: "well_framed ?f" by (simp add: well_framed_def HEADER_LEN_def MAGIC_def ntohs_at_def)
  have a3: "?f ! 1 AND 0x40 \<noteq> 0" by simp
  have a4: "compute_checksum (?f[4 := 0xCC, 5 := 0xCC]) \<noteq> ntohs_at ?f 4" by code_simp
  have a5: "(\<lambda>k::nat. True) 0" by simp
  from checksum_mismatch_ends_relay [OF a1 a2 a3 a4, of "\<lambda>k. True" 0, OF a5]
  show ?thesis by simp
qed

text \<open>
  Claim C1 as stated (the connection remains open and the loop reads the next frame)
  fails: after a well-framed sensitive frame with a wrong checksum, the descriptor is
  closed, the valid frame behind it is still pending, only the two reads of the bad
  frame were made, and the registered consumer was sent nothing.
\<close>

theorem checksum_mismatch_closes_producer_counterexample:
  "(let bad = [0xCC, 0x40, 0, 2, 0, 0, 0, 0, 0x48, 0x69];
        good = [0xCC, 0, 0, 1, 0, 0, 0, 0, 0x78];
        (fd', w') = source_loop (\<lambda>k. True) (\<lambda>w d m. int (length m)) 0
                      \<lparr>pending = bad @ good, recvs = [], is_open = True\<rparr> []
                      \<lparr>sinks = [5], sends = [], closed = []\<rparr>
    in well_framed bad \<and> bad ! 1 AND 0x40 \<noteq> 0 \<and>
       compute_checksum (bad[4 := 0xCC, 5 := 0xCC]) \<noteq> ntohs_at bad 4 \<and>
       well_framed good \<and> is_open fd' = False \<and> pending fd' = good \<and>
       recvs fd' = [8, 2] \<and> sends w' = [])"
  by code_simp

subsection \<open>Frames that are not sensitive\<close>

lemma well_framed_checksum_field:
  "well_framed (f[4 := a, 5 := b]) = well_framed f"
  by (simp add: well_framed_def ntohs_at_def HEADER_LEN_def)

text \<open>
  Claim C5, for the Stage 2 readers. A frame with bit 0x40 of the options byte clear
  that satisfies the structural rules is accepted by \<open>read_ctmp\<close> (and by
  \<open>readCtmpMessage\<close>, which is the same function) whatever the two bytes of the
  checksum field are; the buffer returned is the frame, and the stream is left right
  behind it.
\<close>

theorem nonsensitive_frame_accepted_for_any_checksum:
  assumes "well_framed f" and "f ! 1 AND 0x40 = 0"
    and "pending fd = f[4 := a, 5 := b] @ rest"
  shows "read_ctmp fd out =
           (True, f[4 := a, 5 := b],
            fd\<lparr>pending := rest, recvs := recvs fd @ [8, length f - 8]\<rparr>) \<and>
         readCtmpMessage fd out = read_ctmp fd out"
proof -
  have wf: "well_framed (f[4 := a, 5 := b])"
    using assms(1) by (simp only: well_framed_checksum_field)
  have o: "(f[4 := a, 5 := b]) ! 1 = f ! 1" by simp
  show ?thesis
    using assms(2) by (simp add: read_ctmp_framed [OF assms(3) wf] o readCtmpMessage_eq)
qed

text \<open>
  The theorem at a five-byte body with the checksum field set to 0x12 0x34.
\<close>

theorem nonsensitive_frame_accepted_for_any_checksum_witness:
  "read_ctmp \<lparr>pending = [0xCC, 0, 0, 5, 0x12, 0x34, 0, 0, 0x48, 0x65, 0x6C, 0x6C, 0x6F, 0xCC],
              recvs = [], is_open = True\<rparr> [] =
     (True, [0xCC, 0, 0, 5, 0x12, 0x34, 0, 0, 0x48, 0x65, 0x6C, 0x6C, 0x6F],
      \<lparr>pending = [0xCC], recvs = [8, 5], is_open = True\<rparr>)"
proof -
  let ?f = "[0xCC, 0, 0, 5, 0, 0, 0, 0, 0x48, 0x65, 0x6C, 0x6C, 0x6F] :: u8 list"
  let ?fd = "\<lparr>pending = [0xCC, 0, 0, 5, 0x12, 0x34, 0, 0, 0x48, 0x65, 0x6C, 0x6C, 0x6F, 0xCC],
              recvs = [], is_open = True\<rparr>"
  have a1: "well_framed ?f" by (simp add: well_framed_def HEADER_LEN_def MAGIC_def ntohs_at_def)
  have a2: "?f ! 1 AND 0x40 = 0" by simp
  have a3: "pending ?fd = ?f[4 := 0x12, 5 := 0x34] @ [0xCC]" by simp
  from nonsensitive_frame_accepted_for_any_checksum [OF a1 a2 a3, of "[]"]
  show ?thesis by simp
qed

text \<open>
  Claim C5 as stated does not hold of the Stage 1 reader it also cites:
  \<open>get_ctmp_message\<close> rejects a well-framed frame with bit 0x40 clear as soon as
  its checksum field is not zero.
\<close>

theorem stage1_rejects_nonzero_checksum_counterexample:
  "(let f = [0xCC, 0, 0, 0, 0x12, 0x34, 0, 0]
    in well_framed f \<and> f ! 1 AND 0x40 = 0 \<and>
       get_ctmp_message \<lparr>pending = f, recvs = [], is_open = True\<rparr> [] =
         (False, [], \<lparr>pending = [], recvs = [8], is_open = True\<rparr>))"
  by code_simp

subsection \<open>The length bound\<close>

text \<open>
  Claim C7. The declared length is decoded from the two bytes at offsets 2 and 3 into a
  16-bit value, so it never exceeds \<open>MAX_BODY\<close> = 65535 and the guard
  \<open>len > MAX_BODY\<close> never fires (\<open>uint_u16_le\<close>): no frame declaring 65536 or more
  body bytes exists for the reader, and none reaches the body read. Stated on what the
  readers do: \<open>read_ctmp\<close> and \<open>get_ctmp_message\<close> issue the header read, and
  whenever they issue anything more, it is one body read of exactly the declared length,
  that length is at most \<open>MAX_BODY\<close>, and the vector holds the header and that many
  bytes.
\<close>

theorem body_read_bounded_by_MAX_BODY:
  "(recvs (snd (snd (read_ctmp fd out))) \<noteq> recvs fd @ [HEADER_LEN] \<longrightarrow>
      recvs (snd (snd (read_ctmp fd out))) =
        recvs fd @ [HEADER_LEN, unat (ntohs_at (pending fd) 2)] \<and>
      uint (ntohs_at (pending fd) 2) \<le> MAX_BODY \<and>
      length (fst (snd (read_ctmp fd out))) = HEADER_LEN + unat (ntohs_at (pending fd) 2)) \<and>
   (recvs (snd (snd (get_ctmp_message fd out))) \<noteq> recvs fd @ [HEADER_LEN] \<longrightarrow>
      recvs (snd (snd (get_ctmp_message fd out))) =
        recvs fd @ [HEADER_LEN, unat (ntohs_at (pending fd) 2)] \<and>
      uint (ntohs_at (pending fd) 2) \<le> MAX_BODY \<and>
      length (fst (snd (get_ctmp_message fd out))) = HEADER_LEN + unat (ntohs_at (pending fd) 2))"
proof (cases "length (pending fd) < 8")
  case True
  then show ?thesis
    by (simp add: read_ctmp_def get_ctmp_message_def recv_waitall_def HEADER_LEN_def Let_def)
next
  case False
  then have l8: "8 \<le> length (pending fd)" by simp
  have u: "uint (ntohs_at (pending fd) 2) \<le> MAX_BODY"
    using uint_u16_le by (simp add: MAX_BODY_def)
  have w: "length (write_at (take 8 (pending fd) @ drop 8 (resize out (8 + L))) 8 (drop 8 (pending fd))) = 8 + L"
    if "length (pending fd) < 8 + L" for L
    using that l8 by (simp add: write_at_def length_resize)
  show ?thesis
    unfolding read_ctmp_header [OF refl l8 refl] get_ctmp_message_header [OF refl l8 refl]
    using u l8 w by (simp add: HEADER_LEN_def)
qed


text \<open>
  The theorem at a frame declaring two body bytes: both readers ask for 8 bytes, then 2.
\<close>

theorem body_read_bounded_by_MAX_BODY_witness:
  "recvs (snd (snd (read_ctmp \<lparr>pending = [0xCC, 0, 0, 2, 0, 0, 0, 0, 0x48, 0x69],
                                 recvs = [], is_open = True\<rparr> []))) = [8, 2] \<and>
   recvs (snd (snd (get_ctmp_message \<lparr>pending = [0xCC, 0, 0, 2, 0, 0, 0, 0, 0x48, 0x69],
                                 recvs = [], is_open = True\<rparr> []))) = [8, 2] \<and>
   uint (ntohs_at [0xCC, 0, 0, 2, 0, 0, 0, 0, 0x48, 0x69] 2) \<le> MAX_BODY"
proof -
  let ?fd = "\<lparr>pending = [0xCC, 0, 0, 2, 0, 0, 0, 0, 0x48, 0x69], recvs = [], is_open = True\<rparr>"
  have a1: "recvs (snd (snd (read_ctmp ?fd []))) \<noteq> recvs ?fd @ [HEADER_LEN]"
    by code_simp
  have a2: "recvs (snd (snd (get_ctmp_message ?fd []))) \<noteq> recvs ?fd @ [HEADER_LEN]"
    by code_simp
  have n: "unat (ntohs_at [0xCC, 0, 0, 2, 0, 0, 0, 0, 0x48, 0x69] 2) = 2"
    by (simp add: ntohs_at_def)
  from body_read_bounded_by_MAX_BODY [of ?fd "[]"] a1 a2 n
  show ?thesis by (simp add: HEADER_LEN_def)
qed

subsection \<open>Stage 1\<close>

lemma handle_source_rejected:
  assumes "run_flag k" and "get_ctmp_message fd msg = (False, msg', fd')"
  shows "handle_source run_flag tx k fd msg w = (close_sock fd', w)"
  using assms by (subst handle_source.simps) simp

lemma handle_source_stopped:
  "\<not> run_flag k \<Longrightarrow> handle_source run_flag tx k fd msg w = (close_sock fd, w)"
  by (subst handle_source.simps) simp

text \<open>
  Claim C9. \<open>get_ctmp_message\<close> returns true only for a header whose options byte
  and whose bytes at offsets 4 to 7 are all zero; and whenever the eight header bytes
  have a nonzero options byte or a nonzero checksum field, it returns false and
  \<open>handle_source\<close> ends with the source descriptor closed and nothing broadcast.
\<close>

theorem stage1_requires_zero_options_and_checksum:
  "(get_ctmp_message fd msg = (True, msg', fd') \<longrightarrow>
      take 8 msg' = take 8 (pending fd) \<and>
      msg' ! 1 = 0 \<and> msg' ! 4 = 0 \<and> msg' ! 5 = 0 \<and> msg' ! 6 = 0 \<and> msg' ! 7 = 0) \<and>
   (8 \<le> length (pending fd) \<and>
    (pending fd ! 1 \<noteq> 0 \<or> pending fd ! 4 \<noteq> 0 \<or> pending fd ! 5 \<noteq> 0) \<longrightarrow>
      fst (get_ctmp_message fd msg) = False \<and>
      is_open (fst (handle_source run_flag tx k fd msg w)) = False \<and>
      snd (handle_source run_flag tx k fd msg w) = w)"
proof (rule conjI; rule impI)
  assume "get_ctmp_message fd msg = (True, msg', fd')"
  from get_ctmp_message_True_D [OF this]
  show "take 8 msg' = take 8 (pending fd) \<and>
      msg' ! 1 = 0 \<and> msg' ! 4 = 0 \<and> msg' ! 5 = 0 \<and> msg' ! 6 = 0 \<and> msg' ! 7 = 0"
    by simp
next
  assume a: "8 \<le> length (pending fd) \<and>
    (pending fd ! 1 \<noteq> 0 \<or> pending fd ! 4 \<noteq> 0 \<or> pending fd ! 5 \<noteq> 0)"
  then have l8: "8 \<le> length (pending fd)" by simp
  have r: "get_ctmp_message fd msg =
      (False, msg, fd\<lparr>pending := drop 8 (pending fd), recvs := recvs fd @ [8]\<rparr>)"
    unfolding get_ctmp_message_header [OF refl l8 refl] using a by auto
  have c1: "fst (get_ctmp_message fd msg) = False" by (simp add: r)
  have c2: "is_open (fst (handle_source run_flag tx k fd msg w)) = False"
    by (cases "run_flag k")
       (simp_all add: handle_source_rejected [of run_flag k, OF _ r] handle_source_stopped close_sock_def)
  have c3: "snd (handle_source run_flag tx k fd msg w) = w"
    by (cases "run_flag k")
       (simp_all add: handle_source_rejected [of run_flag k, OF _ r] handle_source_stopped)
  from c1 c2 c3
  show "fst (get_ctmp_message fd msg) = False \<and>
      is_open (fst (handle_source run_flag tx k fd msg w)) = False \<and>
      snd (handle_source run_flag tx k fd msg w) = w"
    by simp
qed

text \<open>
  The theorem at an accepted frame, and at a sensitive Stage 2 frame (options 0x40, a
  checksum in the field), which Stage 1 rejects and answers by closing the source.
\<close>

theorem stage1_requires_zero_options_and_checksum_witness:
  "get_ctmp_message \<lparr>pending = [0xCC, 0, 0, 1, 0, 0, 0, 0, 0x41], recvs = [], is_open = True\<rparr> [] =
     (True, [0xCC, 0, 0, 1, 0, 0, 0, 0, 0x41], \<lparr>pending = [], recvs = [8, 1], is_open = True\<rparr>) \<and>
   [0xCC, 0, 0, 1, 0, 0, 0, 0, 0x41 :: u8] ! 1 = 0 \<and>
   [0xCC, 0, 0, 1, 0, 0, 0, 0, 0x41 :: u8] ! 4 = 0 \<and>
   [0xCC, 0, 0, 1, 0, 0, 0, 0, 0x41 :: u8] ! 5 = 0 \<and>
   fst (get_ctmp_message \<lparr>pending = [0xCC, 0x40, 0, 1, 0x66, 0xB1, 0, 0, 0x41],
                          recvs = [], is_open = True\<rparr> []) = False \<and>
   is_open (fst (handle_source (\<lambda>k. True) (\<lambda>w d m. int (length m)) 0
       \<lparr>pending = [0xCC, 0x40, 0, 1, 0x66, 0xB1, 0, 0, 0x41], recvs = [], is_open = True\<rparr> []
       \<lparr>sinks = [7], sends = [], closed = []\<rparr>)) = False \<and>
   snd (handle_source (\<lambda>k. True) (\<lambda>w d m. int (length m)) 0
       \<lparr>pending = [0xCC, 0x40, 0, 1, 0x66, 0xB1, 0, 0, 0x41], recvs = [], is_open = True\<rparr> []
       \<lparr>sinks = [7], sends = [], closed = []\<rparr>) = \<lparr>sinks = [7], sends = [], closed = []\<rparr>"
proof -
  let ?good = "\<lparr>pending = [0xCC, 0, 0, 1, 0, 0, 0, 0, 0x41], recvs = [], is_open = True\<rparr>"
  let ?bad = "\<lparr>pending = [0xCC, 0x40, 0, 1, 0x66, 0xB1, 0, 0, 0x41], recvs = [], is_open = True\<rparr>"
  have g: "get_ctmp_message ?good [] =
     (True, [0xCC, 0, 0, 1, 0, 0, 0, 0, 0x41], \<lparr>pending = [], recvs = [8, 1], is_open = True\<rparr>)"
    by code_simp
  have b: "8 \<le> length (pending ?bad) \<and>
    (pending ?bad ! 1 \<noteq> 0 \<or> pending ?bad ! 4 \<noteq> 0 \<or> pending ?bad ! 5 \<noteq> 0)"
    by simp
  note accepted = stage1_requires_zero_options_and_checksum
         [of ?good "[]" "[0xCC, 0, 0, 1, 0, 0, 0, 0, 0x41]"
             "\<lparr>pending = [], recvs = [8, 1], is_open = True\<rparr>",
          THEN conjunct1, rule_format, OF g]
  note rejected = stage1_requires_zero_options_and_checksum
         [of ?bad "[]" _ _ "\<lambda>k. True" "\<lambda>w d m. int (length m)" 0
             "\<lparr>sinks = [7], sends = [], closed = []\<rparr>",
          THEN conjunct2, rule_format, OF b]
  from g accepted rejected show ?thesis by (simp only: simp_thms)
qed

subsection \<open>What the consumers are sent\<close>

text \<open>
  Claim C10. Whenever \<open>read_ctmp\<close> returns true, the vector it filled is one
  structurally valid frame (\<open>well_framed\<close>: first byte 0xCC, offsets 6 and 7 zero,
  size 8 plus the length its offsets 2 and 3 declare); \<open>source_loop\<close> hands only such
  a vector to the broadcast loop, so every \<open>send\<close> it adds to the log carries a
  structurally valid frame, and the earlier log entries stay as they were.
\<close>

theorem relayed_buffers_are_well_framed:
  "(read_ctmp fd msg = (True, msg', fd') \<longrightarrow> well_framed msg') \<and>
   take (length (sends w)) (sends (snd (source_loop running tx k fd msg w))) = sends w \<and>
   list_all (\<lambda>e. well_framed (fst (snd e)))
     (drop (length (sends w)) (sends (snd (source_loop running tx k fd msg w))))"
proof -
  obtain new where "sends (snd (source_loop running tx k fd msg w)) = sends w @ new"
      "list_all (\<lambda>e. well_framed (fst (snd e))) new"
    using source_loop_sends by blast
  then show ?thesis by (auto intro: read_ctmp_True_well_framed)
qed

text \<open>
  The theorem at a stream holding one frame and three bytes of a second, cut short: the
  consumer is sent the first frame and nothing else.
\<close>

theorem relayed_buffers_are_well_framed_witness:
  "well_framed [0xCC, 0, 0, 1, 0xAB, 0xCD, 0, 0, 0x41] \<and>
   sends (snd (source_loop (\<lambda>k. True) (\<lambda>w d m. int (length m)) 0
      \<lparr>pending = [0xCC, 0, 0, 1, 0xAB, 0xCD, 0, 0, 0x41, 0xCC, 0, 0], recvs = [], is_open = True\<rparr> []
      \<lparr>sinks = [7], sends = [], closed = []\<rparr>)) =
     [(7, [0xCC, 0, 0, 1, 0xAB, 0xCD, 0, 0, 0x41], 9)]"
proof -
  let ?fd = "\<lparr>pending = [0xCC, 0, 0, 1, 0xAB, 0xCD, 0, 0, 0x41, 0xCC, 0, 0], recvs = [], is_open = True\<rparr>"
  have r: "read_ctmp ?fd [] = (True, [0xCC, 0, 0, 1, 0xAB, 0xCD, 0, 0, 0x41],
             \<lparr>pending = [0xCC, 0, 0], recvs = [8, 1], is_open = True\<rparr>)"
    by code_simp
  have s: "sends (snd (source_loop (\<lambda>k. True) (\<lambda>w d m. int (length m)) 0 ?fd []
      \<lparr>sinks = [7], sends = [], closed = []\<rparr>)) =
     [(7, [0xCC, 0, 0, 1, 0xAB, 0xCD, 0, 0, 0x41], 9)]"
    by code_simp
  from relayed_buffers_are_well_framed [of ?fd "[]" _ _ "\<lparr>sinks = [7], sends = [], closed = []\<rparr>"
       "\<lambda>k. True" "\<lambda>w d m. int (length m)" 0] r s
  show ?thesis by simp
qed

subsection \<open>The two ways of verifying a checksum\<close>

lemma split_u16: "push_bit 8 (ucast (ucast (drop_bit 8 (c::u16)) :: u8)) OR ucast (ucast c :: u8) = c"
  by (rule bit_word_eqI) (auto simp: bit_simps dest: bit_imp_le_length)

lemma ntohs_at_with_checksum:
  assumes "6 \<le> length buf"
  shows "ntohs_at (with_checksum buf) 4 = compute_checksum (buf[4 := 0xCC, 5 := 0xCC])"
  using assms by (simp add: with_checksum_def Let_def ntohs_at_def split_u16)

lemma with_checksum_sentinel:
  "(with_checksum buf)[4 := 0xCC, 5 := 0xCC] = buf[4 := 0xCC, 5 := 0xCC]"
  by (simp add: with_checksum_def Let_def list_update_swap [of 4 5])

lemma sealed_frame_verifies:
  assumes "6 \<le> length buf"
  shows "compute_checksum ((with_checksum buf)[4 := 0xCC, 5 := 0xCC]) = ntohs_at (with_checksum buf) 4"
  using assms by (simp add: with_checksum_sentinel ntohs_at_with_checksum)


lemma unat_be_word_le: "unat (be_word hi lo) \<le> 65535"
  using be_word_le [of hi lo] by (simp only: u32_le_ffff)

lemma fold_carry_mod:
  assumes a: "s \<le> 0xFFFF" "w \<le> 0xFFFF"
  shows "unat (fold_carry (s + w)) mod 65535 = (unat s + unat w) mod 65535"
proof -
  from a have u: "unat (s + w) = unat s + unat w"
    by (simp add: u32_le_ffff unat_add_small)
  show ?thesis
  proof (cases "s + w > 0xFFFF")
    case True
    then have big: "65535 < unat s + unat w" using u by (simp add: u32_gt_ffff)
    have le: "unat s + unat w \<le> 131070" using a by (simp add: u32_le_ffff)
    have "unat ((s + w) AND 0xFFFF) = unat s + unat w - 65536"
      using big le u by (simp add: unat_and_ffff carry_mod)
    then have "unat (((s + w) AND 0xFFFF) + 1) = unat s + unat w - 65535"
      using big le by (simp add: unat_word_ariths)
    then have "unat (fold_carry (s + w)) = unat s + unat w - 65535"
      using True by (simp only: fold_carry_def if_True)
    then show ?thesis using big by (simp add: le_mod_geq)
  next
    case False
    then show ?thesis using u by (simp add: fold_carry_def)
  qed
qed

lemma sum_words_mod:
  "s \<le> 0xFFFF \<Longrightarrow>
   sum_words xs s \<le> 0xFFFF \<and>
   unat (sum_words xs s) mod 65535 = (unat s + word_total xs) mod 65535"
proof (induction xs s rule: sum_words.induct)
  case (1 hi lo rest s)
  let ?s' = "fold_carry (s + be_word hi lo)"
  have le: "?s' \<le> 0xFFFF" using "1.prems" be_word_le by (rule fold_carry_le)
  have m: "unat ?s' mod 65535 = (unat s + unat (be_word hi lo)) mod 65535"
    using "1.prems" be_word_le by (rule fold_carry_mod)
  from "1.IH" [OF le]
  have ih: "sum_words rest ?s' \<le> 0xFFFF"
    "unat (sum_words rest ?s') mod 65535 = (unat ?s' + word_total rest) mod 65535"
    by simp_all
  have "(unat ?s' + word_total rest) mod 65535 =
        (unat ?s' mod 65535 + word_total rest) mod 65535"
    by (simp add: mod_add_left_eq)
  also have "\<dots> = (unat s + unat (be_word hi lo) + word_total rest) mod 65535"
    by (simp only: m mod_add_left_eq)
  finally show ?case using ih by (simp add: add.assoc)
next
  case (2 b s)
  have "push_bit 8 (ucast b) = be_word b 0" by (simp add: be_word_def)
  then show ?case
    using fold_carry_le [OF "2.prems" be_word_le [of b 0]]
      fold_carry_mod [OF "2.prems" be_word_le [of b 0]]
    by simp
next
  case (3 s)
  then show ?case by simp
qed


lemma u16_ffff: "(0xFFFF :: u16) = - 1"
  by simp

lemma ucast_not_u32: "(ucast (NOT (s::u32)) AND 0xFFFF :: u16) = NOT (ucast s)"
proof -
  have "(ucast (NOT s) :: u16) = NOT (ucast s)"
    by (rule bit_word_eqI) (auto simp: bit_simps)
  then show ?thesis by (simp only: u16_ffff) simp
qed

lemma unat_not_u16: "unat (NOT (x::u16)) = 65535 - unat x"
proof -
  have "NOT x = 0xFFFF - x" by (simp add: not_eq_complement)
  moreover have "x \<le> 0xFFFF" by (simp only: u16_ffff) simp
  ultimately show ?thesis by (simp add: unat_sub)
qed

lemma unat_compute_checksum:
  "unat (compute_checksum b) = 65535 - unat (sum_words b 0)"
proof -
  have le: "unat (sum_words b 0) \<le> 65535"
    using sum_words_mod [of 0 b] by (simp add: u32_le_ffff)
  have "unat (ucast (sum_words b 0) :: u16) = unat (sum_words b 0)"
    using le by (simp add: unsigned_ucast_eq take_bit_eq_mod)
  then show ?thesis
    by (simp add: compute_checksum_def ucast_not_u32 unat_not_u16)
qed

lemma be_word_split: "be_word (ucast (drop_bit 8 (c::u16))) (ucast c) = ucast c"
  unfolding be_word_def
  by (rule bit_word_eqI) (auto simp: bit_simps dest: bit_imp_le_length)

lemma unat_be_word_split: "unat (be_word (ucast (drop_bit 8 (c::u16))) (ucast c)) = unat c"
proof -
  have "unat c < 2 ^ 16" using unsigned_less [of c] by simp
  then have "take_bit 32 (unat c) = unat c"
    by (intro take_bit_nat_eq_self) simp
  then show ?thesis by (simp add: be_word_split unsigned_ucast_eq)
qed

lemma shifted_residue:
  assumes "(A::nat) mod 65535 = (A + 52428) mod 65535"
  shows False
proof -
  define a where "a = A mod 65535"
  have lt: "a < 65535" by (simp add: a_def)
  have "(A + 52428) mod 65535 = (a + 52428) mod 65535"
    by (simp add: a_def mod_add_left_eq)
  then have e: "a = (a + 52428) mod 65535" using assms by (simp add: a_def)
  show False
  proof (cases "a + 52428 < 65535")
    case True
    then show False using e by simp
  next
    case False
    then have "(a + 52428) mod 65535 = a + 52428 - 65535"
      using lt by (simp add: le_mod_geq)
    then show False using e False by simp
  qed
qed

lemma sealed_total_not_ffff:
  assumes c_def: "c = compute_checksum (b0 # b1 # b2 # b3 # 0xCC # 0xCC # rest)"
  shows "sum_words (b0 # b1 # b2 # b3 # ucast (drop_bit 8 c) # ucast c # rest) 0 \<noteq> 0xFFFF"
proof
  let ?tmp = "b0 # b1 # b2 # b3 # 0xCC # 0xCC # rest"
  let ?sealed = "b0 # b1 # b2 # b3 # ucast (drop_bit 8 c) # ucast c # rest"
  define A where "A = unat (be_word b0 b1) + unat (be_word b2 b3) + word_total rest"
  define m where "m = unat (sum_words ?tmp 0)"
  assume "sum_words ?sealed 0 = 0xFFFF"
  then have t: "unat (sum_words ?sealed 0) mod 65535 = 0" by simp
  have cc: "unat (be_word 0xCC 0xCC) = 52428" by (simp add: be_word_def)
  have wt: "word_total ?tmp = A + 52428" by (simp add: A_def cc)
  have mle: "m \<le> 65535" using sum_words_mod [of 0 ?tmp] by (simp add: u32_le_ffff m_def)
  have mm: "m mod 65535 = (A + 52428) mod 65535"
    using sum_words_mod [of 0 ?tmp] by (simp only: m_def wt) simp
  have uc: "unat c = 65535 - m" by (simp add: c_def m_def unat_compute_checksum)
  have ws: "word_total ?sealed = A + (65535 - m)"
    by (simp add: A_def unat_be_word_split uc)
  have "unat (sum_words ?sealed 0) mod 65535 = (A + (65535 - m)) mod 65535"
    using sum_words_mod [of 0 ?sealed] by (simp only: ws) simp
  then have z: "(A + (65535 - m)) mod 65535 = 0" using t by simp
  have "A mod 65535 = (A + 65535) mod 65535" by simp
  also have "\<dots> = ((A + (65535 - m)) + m) mod 65535" using mle by simp
  also have "\<dots> = ((A + (65535 - m)) mod 65535 + m mod 65535) mod 65535"
    by (simp only: mod_add_eq)
  also have "\<dots> = (A + 52428) mod 65535" by (simp only: z mm) simp
  finally show False by (rule shifted_residue)
qed

lemma length_ge6_split:
  assumes "6 \<le> length (buf :: 'a list)"
  obtains b0 b1 b2 b3 b4 b5 rest where "buf = b0 # b1 # b2 # b3 # b4 # b5 # rest"
proof -
  from assms obtain b0 r0 where "buf = b0 # r0" "5 \<le> length r0" by (cases buf) auto
  moreover then obtain b1 r1 where "r0 = b1 # r1" "4 \<le> length r1" by (cases r0) auto
  moreover then obtain b2 r2 where "r1 = b2 # r2" "3 \<le> length r2" by (cases r1) auto
  moreover then obtain b3 r3 where "r2 = b3 # r3" "2 \<le> length r3" by (cases r2) auto
  moreover then obtain b4 r4 where "r3 = b4 # r4" "1 \<le> length r4" by (cases r3) auto
  moreover then obtain b5 r5 where "r4 = b5 # r5" by (cases r4) auto
  ultimately show ?thesis using that by simp
qed

lemma sealed_frame_fails_validateChecksum:
  assumes "6 \<le> length buf"
  shows "\<not> validateChecksum (with_checksum buf)"
proof -
  from assms obtain b0 b1 b2 b3 b4 b5 rest where b: "buf = b0 # b1 # b2 # b3 # b4 # b5 # rest"
    by (rule length_ge6_split)
  show ?thesis
    using sealed_total_not_ffff [OF refl, of b0 b1 b2 b3 rest]
    by (simp add: b with_checksum_def Let_def validateChecksum_def)
qed

lemma u16_bytes: "ucast (drop_bit 8 (push_bit 8 (ucast (hi::u8)) OR ucast (lo::u8) :: u16)) = hi"
  "ucast (push_bit 8 (ucast (hi::u8)) OR ucast (lo::u8) :: u16) = lo"
  by (rule bit_word_eqI; auto simp: bit_simps dest: bit_imp_le_length)+

lemma ntohs_at_bytes:
  "ucast (drop_bit 8 (ntohs_at buf i)) = buf ! i" "ucast (ntohs_at buf i) = buf ! (i + 1)"
  unfolding ntohs_at_def by (rule u16_bytes)+

lemma field_match_is_sealed:
  assumes "compute_checksum (buf[4 := 0xCC, 5 := 0xCC]) = ntohs_at buf 4"
  shows "with_checksum buf = buf"
  by (simp only: with_checksum_def Let_def assms ntohs_at_bytes) simp

lemma variants_never_both_accept:
  assumes "6 \<le> length buf"
    and "compute_checksum (buf[4 := 0xCC, 5 := 0xCC]) = ntohs_at buf 4"
  shows "\<not> validateChecksum buf"
  using sealed_frame_fails_validateChecksum [OF assms(1)] field_match_is_sealed [OF assms(2)]
  by simp

text \<open>
  Claim C2 at two frames. The first carries the checksum the sender computes with the
  field held at 0xCC 0xCC: the reader that recomputes (\<open>readCtmpMessage\<close>) accepts
  it and the reader that sums the received buffer (\<open>readCtmpMessage_sum\<close>, through
  \<open>validateChecksum\<close>) rejects it. The second makes the words of the buffer add up
  to 0xFFFF: the summing reader accepts it and the recomputing reader rejects it. By
  \<open>variants_never_both_accept\<close> no buffer with a checksum field passes both.
\<close>

theorem checksum_variants_disagree:
  "(let sealed = [0xCC, 0x40, 0, 0, 0x66, 0xF2, 0, 0];
        summed = [0xCC, 0x40, 0, 0, 0x33, 0xBF, 0, 0]
    in fst (readCtmpMessage \<lparr>pending = sealed, recvs = [], is_open = True\<rparr> []) = True \<and>
       fst (readCtmpMessage_sum \<lparr>pending = sealed, recvs = [], is_open = True\<rparr> []) = False \<and>
       fst (readCtmpMessage \<lparr>pending = summed, recvs = [], is_open = True\<rparr> []) = False \<and>
       fst (readCtmpMessage_sum \<lparr>pending = summed, recvs = [], is_open = True\<rparr> []) = True)"
  by code_simp


text \<open>
  Claim C3 at the frame with options 0x40 and the body "Hello": the checksum computed
  with the field held at 0xCC 0xCC is 0x431B; with it in the field, \<open>read_ctmp\<close> and
  \<open>readCtmpMessage\<close> accept the frame (as \<open>sealed_frame_verifies\<close> shows for every
  buffer), while \<open>validateChecksum\<close> and the reader built on it reject it (as
  \<open>sealed_frame_fails_validateChecksum\<close> shows for every buffer).
\<close>

theorem sealed_frame_rejected_by_validateChecksum:
  "(let buf = [0xCC, 0x40, 0, 5, 0, 0, 0, 0, 0x48, 0x65, 0x6C, 0x6C, 0x6F];
        sealed = with_checksum buf
    in sealed = [0xCC, 0x40, 0, 5, 0x43, 0x1B, 0, 0, 0x48, 0x65, 0x6C, 0x6C, 0x6F] \<and>
       fst (read_ctmp \<lparr>pending = sealed, recvs = [], is_open = True\<rparr> []) = True \<and>
       fst (readCtmpMessage \<lparr>pending = sealed, recvs = [], is_open = True\<rparr> []) = True \<and>
       validateChecksum sealed = False \<and>
       fst (readCtmpMessage_sum \<lparr>pending = sealed, recvs = [], is_open = True\<rparr> []) = False)"
  by code_simp

end
